theory Spec2Isabelle
  imports Complex_Main "HOL-Library.List_Lexorder"
begin

section \<open>Resume ATS score analyser: the helper functions of \<open>resume/app.py\<close>\<close>

text \<open>
  The theory embeds the helper functions of \<open>resume/app.py\<close> (lines 67 to 142):
  \<open>extract_text_from_pdf\<close>, \<open>extract_text_from_docx\<close>, \<open>parse_resume\<close>,
  \<open>compare_with_job_description\<close>, \<open>optimize_resume\<close> and \<open>create_optimized_docx\<close>.

  Conventions of the embedding.
  \<^item> A Python \<open>str\<close> is the list of its code points, a code point is a natural number.
    The tables of the Unicode database that the library consults (the class \<open>\w\<close> of
    \<open>re\<close>, the case mapping of \<open>str.lower\<close>, the white space of \<open>str.strip\<close>) are not
    part of the source: they are a parameter \<open>U\<close>, and every theorem holds for every value
    of it. The rows of the tables for the code points below 256 are written out in
    \<open>latin1\<close> for the concrete examples.
  \<^item> A Python \<open>set\<close> of strings is a set of strings, \<open>len\<close> of it is \<open>card\<close>. The order
    in which CPython iterates a set of strings depends on the hash seed of the process; it
    is a parameter \<open>order\<close> of the functions that list a set.
  \<^item> A Python \<open>float\<close> is the rational number that the double denotes; division and
    multiplication round to the nearest double, a tie going to the even significand.
  \<^item> A parsed pdf is the list of its pages, a parsed docx the list of its paragraphs, and
    a docx under construction the list of the blocks added to it. The bytes that
    python-docx writes for a document are a parameter \<open>package\<close>; they may depend on the
    state of the world at the call (the clock), which is a parameter too.
\<close>

subsection \<open>Strings and the tables of the Unicode database\<close>

type_synonym codepoint = nat

type_synonym str = "codepoint list"

definition ustr :: "string \<Rightarrow> str" where
  \<comment> \<open>a string literal of the source\<close>
  "ustr s = map of_char s"

record unicode =
  is_word :: "codepoint \<Rightarrow> bool"
  lower_at :: "str \<Rightarrow> codepoint \<Rightarrow> str \<Rightarrow> str"
  is_space :: "codepoint \<Rightarrow> bool"

text \<open>
  \<open>is_word U c\<close>: the code point matches \<open>\w\<close> (a pattern of type \<open>str\<close>, no flag).
  \<open>lower_at U left c right\<close>: the code points that \<open>str.lower\<close> writes for \<open>c\<close> standing
  between \<open>left\<close> and \<open>right\<close>; one code point may become several, and the capital sigma
  depends on its neighbours. \<open>is_space U c\<close>: \<open>str.strip()\<close> removes the code point.
\<close>

fun lower_from :: "unicode \<Rightarrow> str \<Rightarrow> str \<Rightarrow> str" where
  \<comment> \<open>the loop of \<open>str.lower\<close> over the positions of the string\<close>
  "lower_from U left [] = []"
| "lower_from U left (c # right) = lower_at U left c right @ lower_from U (left @ [c]) right"

definition lower :: "unicode \<Rightarrow> str \<Rightarrow> str" where
  \<comment> \<open>\<open>str.lower\<close>\<close>
  "lower U s = lower_from U [] s"

definition latin1 :: unicode where
  \<comment> \<open>the rows of the tables for the code points 0 to 255; no example uses another\<close>
  "latin1 =
     \<lparr>is_word = (\<lambda>c. (48 \<le> c \<and> c \<le> 57) \<or> (65 \<le> c \<and> c \<le> 90) \<or> c = 95
                     \<or> (97 \<le> c \<and> c \<le> 122) \<or> c = 170 \<or> c = 178 \<or> c = 179 \<or> c = 181
                     \<or> c = 185 \<or> c = 186 \<or> (188 \<le> c \<and> c \<le> 190)
                     \<or> (192 \<le> c \<and> c \<le> 214) \<or> (216 \<le> c \<and> c \<le> 246)
                     \<or> (248 \<le> c \<and> c \<le> 255)),
      lower_at = (\<lambda>left c right.
                    if (65 \<le> c \<and> c \<le> 90) \<or> (192 \<le> c \<and> c \<le> 214) \<or> (216 \<le> c \<and> c \<le> 222)
                    then [c + 32] else [c]),
      is_space = (\<lambda>c. (9 \<le> c \<and> c \<le> 13) \<or> (28 \<le> c \<and> c \<le> 32) \<or> c = 133 \<or> c = 160)\<rparr>"

subsection \<open>\<open>re.findall(r'\b\w+\b', s)\<close>\<close>

text \<open>
  The scan of \<open>re.findall\<close> is modelled position by position. A position is the rest of the
  string together with a flag telling whether the character before it is a word character
  (\<open>False\<close> at the start of the string).
\<close>

definition at_boundary :: "unicode \<Rightarrow> bool \<Rightarrow> str \<Rightarrow> bool" where
  \<comment> \<open>\<open>\b\<close>: exactly one of the two neighbours of the position is a word character\<close>
  "at_boundary U prev rest = (prev \<noteq> (case rest of [] \<Rightarrow> False | c # _ \<Rightarrow> is_word U c))"

fun word_plus :: "unicode \<Rightarrow> str \<Rightarrow> nat \<Rightarrow> nat option" where
  \<comment> \<open>greedy \<open>\w+\<close> followed by \<open>\b\<close>: the longest candidate first, then backtracking\<close>
  "word_plus U rest 0 = None"
| "word_plus U rest (Suc k) =
     (if at_boundary U (is_word U (rest ! k)) (drop (Suc k) rest) then Some (Suc k)
      else word_plus U rest k)"

definition match_at :: "unicode \<Rightarrow> bool \<Rightarrow> str \<Rightarrow> nat option" where
  \<comment> \<open>the length of the match of \<open>\b\w+\b\<close> that starts at this position, if there is one\<close>
  "match_at U prev rest =
     (if at_boundary U prev rest then word_plus U rest (length (takeWhile (is_word U) rest))
      else None)"

function findall_from :: "unicode \<Rightarrow> bool \<Rightarrow> str \<Rightarrow> str list" where
  "findall_from U prev rest =
     (case match_at U prev rest of
        Some k \<Rightarrow> take k rest # findall_from U (is_word U (rest ! (k - 1))) (drop k rest)
      | None \<Rightarrow> (case rest of [] \<Rightarrow> [] | c # cs \<Rightarrow> findall_from U (is_word U c) cs))"
  by pat_completeness auto
termination
proof (relation "measure (\<lambda>(U, prev, rest). length rest)")
  show "wf (measure (\<lambda>(U, prev, rest). length rest))" by simp
next
  fix U :: unicode and prev :: bool and rest :: str and k :: nat
  assume "match_at U prev rest = Some k"
  then have m: "word_plus U rest (length (takeWhile (is_word U) rest)) = Some k"
    by (simp add: match_at_def split: if_splits)
  have "word_plus U rest n = Some k \<Longrightarrow> 0 < k \<and> k \<le> n" for n
    by (induction n) (auto split: if_splits)
  from this [OF m] have "0 < k \<and> k \<le> length (takeWhile (is_word U) rest)" .
  moreover have "length (takeWhile (is_word U) rest) \<le> length rest"
    by (rule length_takeWhile_le)
  ultimately have "0 < k \<and> k \<le> length rest" by simp
  then show "((U, is_word U (rest ! (k - 1)), drop k rest), (U, prev, rest))
      \<in> measure (\<lambda>(U, prev, rest). length rest)"
    by auto
next
  fix U :: unicode and prev :: bool and rest :: str and c :: codepoint and cs :: str
  assume "rest = c # cs"
  then show "((U, is_word U c, cs), (U, prev, rest)) \<in> measure (\<lambda>(U, prev, rest). length rest)"
    by simp
qed

declare findall_from.simps [simp del]

definition findall_words :: "unicode \<Rightarrow> str \<Rightarrow> str list" where
  \<comment> \<open>\<open>re.findall(r'\b\w+\b', s)\<close>: the scan starts before the first character\<close>
  "findall_words U s = findall_from U False s"

subsection \<open>Arithmetic of doubles\<close>

fun log2_floor :: "nat \<Rightarrow> nat" where
  \<comment> \<open>for \<open>n > 0\<close>, the \<open>k\<close> with \<open>2 ^ k \<le> n < 2 ^ (k + 1)\<close>\<close>
  "log2_floor n = (if n < 2 then 0 else Suc (log2_floor (n div 2)))"

declare log2_floor.simps [simp del]

definition binade :: "rat \<Rightarrow> int" where
  \<comment> \<open>for \<open>x > 0\<close>, the \<open>e\<close> with \<open>2 powi e \<le> x < 2 powi (e + 1)\<close>\<close>
  "binade x =
     (if 1 \<le> x then int (log2_floor (nat \<lfloor>x\<rfloor>))
      else - int (Suc (log2_floor (nat (\<lceil>1 / x\<rceil> - 1)))))"

definition round_half_even :: "rat \<Rightarrow> int" where
  \<comment> \<open>the nearest integer, a tie going to the even neighbour\<close>
  "round_half_even x =
     (let f = \<lfloor>x\<rfloor>; d = x - of_int f
      in if d < 1 / 2 then f else if 1 / 2 < d then f + 1 else if even f then f else f + 1)"

definition spacing :: "rat \<Rightarrow> rat" where
  \<comment> \<open>for \<open>a > 0\<close>, the distance between neighbouring doubles at \<open>a\<close>: a significand of 53
      bits, and the spacing of the subnormal numbers below \<open>2 powi (- 1022)\<close>\<close>
  "spacing a = 2 powi (max (binade a - 52) (- 1074))"

definition round_to_double :: "rat \<Rightarrow> rat" where
  \<comment> \<open>the double nearest to \<open>x\<close>, a tie going to the even significand. The overflow at
      \<open>2 powi 1024\<close> is out of reach of the quotients and products that the source forms,
      which are at most 100.\<close>
  "round_to_double x =
     (if x = 0 then 0
      else sgn x * (of_int (round_half_even (\<bar>x\<bar> / spacing \<bar>x\<bar>)) * spacing \<bar>x\<bar>))"

definition int_truediv :: "nat \<Rightarrow> nat \<Rightarrow> rat" where
  \<comment> \<open>\<open>a / b\<close> of two integers, \<open>b\<close> not 0: the quotient, correctly rounded\<close>
  "int_truediv a b = round_to_double (of_nat a / of_nat b)"

definition float_mul :: "rat \<Rightarrow> rat \<Rightarrow> rat" where
  \<comment> \<open>\<open>x * y\<close> of two doubles\<close>
  "float_mul x y = round_to_double (x * y)"

subsection \<open>\<open>compare_with_job_description\<close>\<close>

record analysis =
  score :: rat
  missing_keywords :: "str list"

type_synonym set_order = "str set \<Rightarrow> str list"

definition lists_each_once :: "set_order \<Rightarrow> bool" where
  \<comment> \<open>what \<open>list(s)\<close> guarantees of the iteration order: each element of \<open>s\<close>, once\<close>
  "lists_each_once order = (\<forall>S. finite S \<longrightarrow> set (order S) = S \<and> distinct (order S))"

definition compare_with_job_description ::
    "unicode \<Rightarrow> set_order \<Rightarrow> str \<Rightarrow> str \<Rightarrow> analysis" where
  "compare_with_job_description U order resume_text job_description =
     (let resume_words = set (findall_words U (lower U resume_text));
          job_words = set (findall_words U (lower U job_description));
          important_words = job_words - resume_words;
          score =
            (if card job_words > 0
             then (let match_words = job_words \<inter> resume_words
                   in float_mul (int_truediv (card match_words) (card job_words)) 100)
             else 0)
      in \<lparr>score = score, missing_keywords = order important_words\<rparr>)"

subsection \<open>\<open>optimize_resume\<close>\<close>

fun str_join :: "str \<Rightarrow> str list \<Rightarrow> str" where
  \<comment> \<open>\<open>sep.join(xs)\<close>\<close>
  "str_join sep [] = []"
| "str_join sep [x] = x"
| "str_join sep (x # y # ys) = x @ sep @ str_join sep (y # ys)"

fun show_nat :: "nat \<Rightarrow> str" where
  \<comment> \<open>the decimal digits of a natural number; 48 is the code point of the digit zero\<close>
  "show_nat n = (if n < 10 then [48 + n] else show_nat (n div 10) @ [48 + n mod 10])"

declare show_nat.simps [simp del]

definition format_1f :: "rat \<Rightarrow> str" where
  \<comment> \<open>the format specification \<open>.1f\<close> of an f-string, for a finite number: the tenths of
      the exact value, rounded half to even\<close>
  "format_1f x =
     (let t = nat (round_half_even (\<bar>x\<bar> * 10))
      in (if x < 0 then ustr ''-'' else []) @ show_nat (t div 10) @ ustr ''.'' @ show_nat (t mod 10))"

definition optimize_resume :: "str \<Rightarrow> str \<Rightarrow> analysis \<Rightarrow> str" where
  "optimize_resume resume_text job_description analysis =
     (let optimized = resume_text
      in if missing_keywords analysis \<noteq> []
         then (let missing = str_join (ustr '', '') (take 10 (missing_keywords analysis));
                   suggestion = ustr ''\<newline>\<newline>--- OPTIMIZATION SUGGESTIONS ---\<newline>'';
                   suggestion = suggestion @ ustr ''Consider adding these keywords: '' @ missing
                                  @ ustr ''\<newline>'';
                   suggestion = suggestion @ ustr ''Your resume matches ''
                                  @ format_1f (score analysis)
                                  @ ustr ''% of job requirements.\<newline>''
               in optimized @ suggestion)
         else optimized)"

subsection \<open>\<open>create_optimized_docx\<close>\<close>

definition strip :: "unicode \<Rightarrow> str \<Rightarrow> str" where
  \<comment> \<open>\<open>str.strip()\<close>: leading white space removed, then trailing white space\<close>
  "strip U s = rev (dropWhile (is_space U) (rev (dropWhile (is_space U) s)))"

fun split :: "codepoint \<Rightarrow> str \<Rightarrow> str list" where
  \<comment> \<open>\<open>s.split(sep)\<close> for a separator of one character; never the empty list\<close>
  "split sep [] = [[]]"
| "split sep (c # cs) =
     (if c = sep then [] # split sep cs
      else (case split sep cs of [] \<Rightarrow> [[c]] | w # ws \<Rightarrow> (c # w) # ws))"

datatype block = Heading str nat | Paragraph str

type_synonym document = "block list"

definition add_heading :: "str \<Rightarrow> nat \<Rightarrow> document \<Rightarrow> document" where
  "add_heading txt level doc = doc @ [Heading txt level]"

definition add_paragraph :: "str \<Rightarrow> document \<Rightarrow> document" where
  "add_paragraph txt doc = doc @ [Paragraph txt]"

fun add_paragraphs :: "unicode \<Rightarrow> str list \<Rightarrow> document \<Rightarrow> document" where
  \<comment> \<open>the loop \<open>for para in paragraphs\<close>\<close>
  "add_paragraphs U [] doc = doc"
| "add_paragraphs U (para # paragraphs) doc =
     add_paragraphs U paragraphs (if strip U para \<noteq> [] then add_paragraph para doc else doc)"

type_synonym bytes = "nat list"

record bytes_io =
  getvalue :: bytes
  tell :: nat

definition BytesIO :: bytes_io where
  \<comment> \<open>\<open>BytesIO()\<close>: an empty buffer, positioned at its start\<close>
  "BytesIO = \<lparr>getvalue = [], tell = 0\<rparr>"

definition buffer_write :: "bytes \<Rightarrow> bytes_io \<Rightarrow> bytes_io" where
  \<comment> \<open>\<open>buffer.write(data)\<close>: the data replace what stands at the position (zeros fill
      a gap before it), and the position moves behind them\<close>
  "buffer_write data b =
     \<lparr>getvalue = take (tell b) (getvalue b) @ replicate (tell b - length (getvalue b)) 0
                   @ data @ drop (tell b + length data) (getvalue b),
      tell = tell b + length data\<rparr>"

definition seek :: "nat \<Rightarrow> bytes_io \<Rightarrow> bytes_io" where
  "seek pos b = b\<lparr>tell := pos\<rparr>"

definition save :: "('w \<Rightarrow> document \<Rightarrow> bytes) \<Rightarrow> 'w \<Rightarrow> document \<Rightarrow> bytes_io \<Rightarrow> bytes_io" where
  \<comment> \<open>\<open>doc.save(buffer)\<close>: the package that python-docx makes of the document in this
      state of the world is written to the buffer\<close>
  "save package world doc buffer = buffer_write (package world doc) buffer"

definition create_optimized_docx ::
    "unicode \<Rightarrow> ('w \<Rightarrow> document \<Rightarrow> bytes) \<Rightarrow> 'w \<Rightarrow> str \<Rightarrow> str \<Rightarrow> bytes_io" where
  "create_optimized_docx U package world original_text optimized_text =
     (let doc = [];
          doc = add_heading (ustr ''Optimized Resume'') 0 doc;
          paragraphs = split 10 optimized_text;
          doc = add_paragraphs U paragraphs doc;
          buffer = BytesIO;
          buffer = save package world doc buffer;
          buffer = seek 0 buffer
      in buffer)"

definition sample_package :: "nat \<Rightarrow> document \<Rightarrow> bytes" where
  \<comment> \<open>a stand-in for python-docx in the concrete examples: a byte of the clock, then
      for each block a tag, the length of its text and the text\<close>
  "sample_package clock doc =
     clock # concat (map (\<lambda>b. case b of Heading t l \<Rightarrow> 1 # length t # t
                                       | Paragraph t \<Rightarrow> 2 # length t # t) doc)"

subsection \<open>\<open>extract_text_from_pdf\<close>, \<open>extract_text_from_docx\<close>, \<open>parse_resume\<close>\<close>

text \<open>
  The exceptions are those of the library calls: \<open>open\<close>, \<open>PyPDF2.PdfReader\<close> and
  \<open>docx.Document\<close>. The source catches none of them. A page is what its \<open>extract_text()\<close>
  returns (\<open>None\<close> or a string), a paragraph of a parsed docx has its \<open>text\<close>
  (the field \<open>para_text\<close>).
\<close>

datatype error = OSError | PdfReadError | PackageNotFoundError

record page =
  extract_text :: "str option"

record docx_paragraph =
  para_text :: str

fun pdf_pages_loop :: "page list \<Rightarrow> str \<Rightarrow> str" where
  \<comment> \<open>the loop \<open>for page in pdf_reader.pages\<close>; \<open>None\<close> and the empty string are falsy\<close>
  "pdf_pages_loop [] txt = txt"
| "pdf_pages_loop (page # pages) txt =
     pdf_pages_loop pages
       (txt @ (case extract_text page of
                  Some t \<Rightarrow> if t \<noteq> [] then t else []
                | None \<Rightarrow> []))"

definition extract_text_from_pdf :: "('f \<Rightarrow> error + page list) \<Rightarrow> 'f \<Rightarrow> error + str" where
  "extract_text_from_pdf PdfReader pdf_file =
     (case PdfReader pdf_file of
        Inl e \<Rightarrow> Inl e
      | Inr pages \<Rightarrow> Inr (pdf_pages_loop pages []))"

fun docx_paragraphs_loop :: "docx_paragraph list \<Rightarrow> str \<Rightarrow> str" where
  \<comment> \<open>the loop \<open>for para in doc.paragraphs\<close>\<close>
  "docx_paragraphs_loop [] txt = txt"
| "docx_paragraphs_loop (para # paras) txt =
     docx_paragraphs_loop paras (txt @ para_text para @ ustr ''\<newline>'')"

definition extract_text_from_docx ::
    "('d \<Rightarrow> error + docx_paragraph list) \<Rightarrow> 'd \<Rightarrow> error + str" where
  "extract_text_from_docx Document docx_file =
     (case Document docx_file of
        Inl e \<Rightarrow> Inl e
      | Inr paragraphs \<Rightarrow> Inr (docx_paragraphs_loop paragraphs []))"

record 'f library =
  open_rb :: "str \<Rightarrow> error + 'f"
  PdfReader :: "'f \<Rightarrow> error + page list"
  Document :: "str \<Rightarrow> error + docx_paragraph list"

definition parse_resume :: "'f library \<Rightarrow> str \<Rightarrow> str \<Rightarrow> error + str" where
  "parse_resume lib file_path file_type =
     (if file_type = ustr ''pdf''
      then (case open_rb lib file_path of
              Inl e \<Rightarrow> Inl e
            | Inr file \<Rightarrow> extract_text_from_pdf (PdfReader lib) file)
      else if file_type = ustr ''docx''
      then extract_text_from_docx (Document lib) file_path
      else Inr [])"

section \<open>What the specification says, in its own words\<close>

definition is_maximal_run :: "unicode \<Rightarrow> str \<Rightarrow> str \<Rightarrow> bool" where
  \<comment> \<open>\<open>w\<close> occurs in \<open>s\<close> as a maximal run of word characters\<close>
  "is_maximal_run U w s =
     (\<exists>pre post. s = pre @ w @ post \<and> w \<noteq> [] \<and> list_all (is_word U) w
        \<and> (pre = [] \<or> \<not> is_word U (last pre))
        \<and> (post = [] \<or> \<not> is_word U (hd post)))"

definition tokens :: "unicode \<Rightarrow> str \<Rightarrow> str set" where
  \<comment> \<open>the tokens of a text: the maximal runs of word characters of the lowercased text\<close>
  "tokens U s = {w. is_maximal_run U w (lower U s)}"

definition is_digit :: "codepoint \<Rightarrow> bool" where
  "is_digit c = (48 \<le> c \<and> c \<le> 57)"

definition decimal_value :: "str \<Rightarrow> nat" where
  \<comment> \<open>the number that a string of digits writes, read from the left\<close>
  "decimal_value ds = foldl (\<lambda>v c. 10 * v + (c - 48)) 0 ds"

definition writes_nat :: "str \<Rightarrow> nat \<Rightarrow> bool" where
  \<comment> \<open>\<open>ds\<close> is the decimal numeral of \<open>n\<close>: digits only, no leading zero but for 0 itself\<close>
  "writes_nat ds n =
     (ds \<noteq> [] \<and> list_all is_digit ds \<and> (length ds = 1 \<or> hd ds \<noteq> 48) \<and> decimal_value ds = n)"

definition nearest_tenths :: "rat \<Rightarrow> nat \<Rightarrow> bool" where
  \<comment> \<open>\<open>n\<close> tenths are nearest to \<open>x\<close>; of two nearest, the even one\<close>
  "nearest_tenths x n =
     (\<bar>of_nat n - x * 10\<bar> < 1 / 2 \<or> (\<bar>of_nat n - x * 10\<bar> = 1 / 2 \<and> even n))"

definition one_decimal :: "rat \<Rightarrow> str \<Rightarrow> bool" where
  \<comment> \<open>\<open>shown\<close> writes \<open>x\<close> with one decimal place: a minus sign for a negative number, the
      numeral of the whole part, a point and one digit\<close>
  "one_decimal x shown =
     (\<exists>whole tenth n.
        shown = (if x < 0 then [45] else []) @ whole @ [46] @ [tenth]
        \<and> nearest_tenths \<bar>x\<bar> n \<and> writes_nat whole (n div 10)
        \<and> is_digit tenth \<and> tenth - 48 = n mod 10)"

definition comma_joined :: "str list \<Rightarrow> str" where
  \<comment> \<open>the keywords in order, a comma and a space before each but the first\<close>
  "comma_joined ks = concat (map (\<lambda>(i, k). if i = 0 then k else [44, 32] @ k) (enumerate 0 ks))"

definition blank :: "unicode \<Rightarrow> str \<Rightarrow> bool" where
  \<comment> \<open>a line of white space only (the empty line is one)\<close>
  "blank U l = (\<forall>c \<in> set l. is_space U c)"

definition lines_of :: "str \<Rightarrow> str list \<Rightarrow> bool" where
  \<comment> \<open>\<open>ls\<close> are the lines of \<open>t\<close>: no line holds a newline (code point 10), and the text is
      the lines in order, a newline behind each but the last\<close>
  "lines_of t ls =
     (ls \<noteq> [] \<and> (\<forall>l \<in> set ls. 10 \<notin> set l)
      \<and> t = concat (map (\<lambda>l. l @ [10]) (butlast ls)) @ last ls)"

definition page_text :: "page \<Rightarrow> str" where
  \<comment> \<open>the extractable text of a page: the empty string for a page that yields none\<close>
  "page_text p = (case extract_text p of None \<Rightarrow> [] | Some t \<Rightarrow> t)"

section \<open>The regular expression finds the maximal runs of word characters\<close>

lemma dropWhile_word_boundary: "at_boundary U True (dropWhile (is_word U) s)"
proof (cases "dropWhile (is_word U) s")
  case Nil
  show ?thesis unfolding at_boundary_def Nil by simp
next
  case (Cons c cs)
  then have "\<not> (is_word U) (hd (dropWhile (is_word U) s))"
    using hd_dropWhile [of "is_word U" s] by simp
  with Cons show ?thesis by (simp add: at_boundary_def)
qed

lemma match_at_word:
  assumes "(is_word U) c"
  shows "match_at U False (c # cs) = Some (length (takeWhile (is_word U) (c # cs)))"
proof -
  let ?n = "length (takeWhile (is_word U) (c # cs))"
  obtain k where k: "?n = Suc k" using assms by simp
  have "k < length (takeWhile (is_word U) (c # cs))" using k by simp
  then have "(is_word U) ((c # cs) ! k)"
    by (metis nth_mem set_takeWhileD takeWhile_nth)
  moreover have "drop (Suc k) (c # cs) = dropWhile (is_word U) (c # cs)"
    using k by (metis dropWhile_eq_drop)
  ultimately have "word_plus U (c # cs) (Suc k) = Some (Suc k)"
    using dropWhile_word_boundary [of U "c # cs"] by simp
  moreover have "at_boundary U False (c # cs)" using assms by (simp add: at_boundary_def)
  ultimately show ?thesis using k by (simp add: match_at_def)
qed

lemma match_at_nonword:
  assumes "rest = [] \<or> \<not> (is_word U) (hd rest)"
  shows "match_at U prev rest = None"
proof -
  have "takeWhile (is_word U) rest = []" using assms by (cases rest) auto
  then show ?thesis by (simp add: match_at_def)
qed

lemma findall_from_Nil: "findall_from U prev [] = []"
  by (simp add: findall_from.simps [of U prev "[]"] match_at_nonword)

lemma findall_from_nonword:
  "\<not> (is_word U) c \<Longrightarrow> findall_from U prev (c # cs) = findall_from U False cs"
  by (simp add: findall_from.simps [of U prev "c # cs"] match_at_nonword)

lemma findall_from_word:
  assumes "(is_word U) c"
  shows "findall_from U False (c # cs) =
     takeWhile (is_word U) (c # cs) # findall_from U True (dropWhile (is_word U) (c # cs))"
proof -
  let ?n = "length (takeWhile (is_word U) (c # cs))"
  have n: "0 < ?n" using assms by simp
  have "?n - 1 < length (takeWhile (is_word U) (c # cs))" using n by simp
  then have "(is_word U) ((c # cs) ! (?n - 1))"
    by (metis nth_mem set_takeWhileD takeWhile_nth)
  moreover have "take ?n (c # cs) = takeWhile (is_word U) (c # cs)"
    by (metis takeWhile_eq_take)
  moreover have "drop ?n (c # cs) = dropWhile (is_word U) (c # cs)"
    by (metis dropWhile_eq_drop)
  ultimately show ?thesis
    using match_at_word [OF assms, of cs]
    by (simp add: findall_from.simps [of U False "c # cs"] del: takeWhile.simps dropWhile.simps)
qed

lemma maximal_run_Nil: "\<not> is_maximal_run U w []"
  by (simp add: is_maximal_run_def)

lemma maximal_run_starts_word:
  assumes "w \<noteq> []" and "list_all (is_word U) w"
  shows "(is_word U) (hd (w @ post))"
  using assms by (cases w) auto

lemma maximal_run_nonword:
  assumes c: "\<not> (is_word U) c"
  shows "is_maximal_run U w (c # cs) = is_maximal_run U w cs"
proof
  assume "is_maximal_run U w (c # cs)"
  then obtain pre post where s: "c # cs = pre @ w @ post" and w: "w \<noteq> []" "list_all (is_word U) w"
    and pre: "pre = [] \<or> \<not> (is_word U) (last pre)"
    and post: "post = [] \<or> \<not> (is_word U) (hd post)"
    by (auto simp: is_maximal_run_def)
  have "pre \<noteq> []"
  proof
    assume "pre = []"
    with s have "c = hd (w @ post)" by (metis append_Nil list.sel(1))
    with maximal_run_starts_word [OF w] c show False by simp
  qed
  then obtain pre' where pre': "pre = c # pre'" using s by (cases pre) auto
  with s have "cs = pre' @ w @ post" by simp
  moreover have "pre' = [] \<or> \<not> (is_word U) (last pre')"
    using pre pre' by (cases "pre' = []") auto
  ultimately show "is_maximal_run U w cs"
    using w post unfolding is_maximal_run_def by blast
next
  assume "is_maximal_run U w cs"
  then obtain pre post where s: "cs = pre @ w @ post" and w: "w \<noteq> []" "list_all (is_word U) w"
    and pre: "pre = [] \<or> \<not> (is_word U) (last pre)"
    and post: "post = [] \<or> \<not> (is_word U) (hd post)"
    by (auto simp: is_maximal_run_def)
  have "c # cs = (c # pre) @ w @ post" using s by simp
  moreover have "\<not> (is_word U) (last (c # pre))" using pre c by auto
  ultimately show "is_maximal_run U w (c # cs)"
    using w post unfolding is_maximal_run_def by blast
qed

lemma maximal_run_word:
  assumes c: "(is_word U) c"
  shows "is_maximal_run U w (c # cs) =
     (w = takeWhile (is_word U) (c # cs) \<or> is_maximal_run U w (dropWhile (is_word U) (c # cs)))"
proof
  let ?s = "c # cs"
  let ?tw = "takeWhile (is_word U) ?s"
  let ?dw = "dropWhile (is_word U) ?s"
  assume "is_maximal_run U w ?s"
  then obtain pre post where s: "?s = pre @ w @ post" and w: "w \<noteq> []" "list_all (is_word U) w"
    and pre: "pre = [] \<or> \<not> (is_word U) (last pre)"
    and post: "post = [] \<or> \<not> (is_word U) (hd post)"
    by (auto simp: is_maximal_run_def)
  show "w = ?tw \<or> is_maximal_run U w ?dw"
  proof (cases "pre = []")
    case True
    have "takeWhile (is_word U) post = []" using post by (cases post) auto
    moreover have "takeWhile (is_word U) (w @ post) = w @ takeWhile (is_word U) post"
      using w(2) by (intro takeWhile_append2) (simp add: list_all_iff)
    ultimately have "?tw = w" using s True by simp
    then show ?thesis by simp
  next
    case False
    with pre have l: "last pre \<in> set pre" "\<not> (is_word U) (last pre)" by auto
    have "?dw = dropWhile (is_word U) pre @ w @ post"
      unfolding s using l by (rule dropWhile_append1)
    moreover have ne: "dropWhile (is_word U) pre \<noteq> []"
      using l by (auto simp: dropWhile_eq_Nil_conv)
    moreover have "last (dropWhile (is_word U) pre) = last pre"
    proof -
      have "pre = takeWhile (is_word U) pre @ dropWhile (is_word U) pre" by simp
      then have "last pre = last (takeWhile (is_word U) pre @ dropWhile (is_word U) pre)"
        by simp
      also have "\<dots> = last (dropWhile (is_word U) pre)" using ne by (rule last_appendR)
      finally show ?thesis by simp
    qed
    ultimately have "is_maximal_run U w ?dw"
      using w post l(2) unfolding is_maximal_run_def by metis
    then show ?thesis by simp
  qed
next
  let ?s = "c # cs"
  let ?tw = "takeWhile (is_word U) ?s"
  let ?dw = "dropWhile (is_word U) ?s"
  have dw: "?dw = [] \<or> \<not> (is_word U) (hd ?dw)"
    using hd_dropWhile [of "is_word U" ?s] by blast
  assume "w = ?tw \<or> is_maximal_run U w ?dw"
  then show "is_maximal_run U w ?s"
  proof
    assume eq: "w = ?tw"
    have "?s = [] @ ?tw @ ?dw" by simp
    moreover have "?tw \<noteq> []" using c by simp
    moreover have "list_all (is_word U) ?tw"
      by (auto simp: list_all_iff dest: set_takeWhileD)
    ultimately show ?thesis using dw unfolding is_maximal_run_def eq by blast
  next
    assume "is_maximal_run U w ?dw"
    then obtain pre post where s: "?dw = pre @ w @ post" and w: "w \<noteq> []" "list_all (is_word U) w"
      and pre: "pre = [] \<or> \<not> (is_word U) (last pre)"
      and post: "post = [] \<or> \<not> (is_word U) (hd post)"
      by (auto simp: is_maximal_run_def)
    have "pre \<noteq> []"
    proof
      assume "pre = []"
      with s have "hd ?dw = hd (w @ post)" by simp
      moreover have "?dw \<noteq> []" using s w by simp
      ultimately show False using dw maximal_run_starts_word [OF w] by simp
    qed
    with pre have "\<not> (is_word U) (last (?tw @ pre))" by simp
    moreover have "?s = (?tw @ pre) @ w @ post"
    proof -
      have "?tw @ ?dw = ?s" by (rule takeWhile_dropWhile_id)
      then have "?tw @ pre @ w @ post = ?s" by (simp only: s)
      then show ?thesis by (simp only: append_assoc)
    qed
    ultimately show ?thesis using w post unfolding is_maximal_run_def by blast
  qed
qed

lemma clean_dropWhile:
  "dropWhile (is_word U) s = [] \<or> \<not> (is_word U) (hd (dropWhile (is_word U) s))"
  using hd_dropWhile [of "is_word U" s] by blast

lemma findall_from_runs:
  "(prev \<longrightarrow> rest = [] \<or> \<not> (is_word U) (hd rest))
   \<Longrightarrow> set (findall_from U prev rest) = {w. is_maximal_run U w rest}"
proof (induction rest arbitrary: prev rule: length_induct)
  case (1 rest)
  show ?case
  proof (cases rest)
    case Nil
    then show ?thesis by (simp add: findall_from_Nil maximal_run_Nil)
  next
    case (Cons c cs)
    show ?thesis
    proof (cases "(is_word U) c")
      case False
      have "set (findall_from U False cs) = {w. is_maximal_run U w cs}"
        using "1.IH" Cons by simp
      then show ?thesis
        unfolding Cons using False by (simp add: findall_from_nonword maximal_run_nonword)
    next
      case True
      with "1.prems" Cons have p: "prev = False" by auto
      let ?dw = "dropWhile (is_word U) (c # cs)"
      have "length ?dw < length rest"
        unfolding Cons using True by (simp add: length_dropWhile_le less_Suc_eq_le)
      then have "set (findall_from U True ?dw) = {w. is_maximal_run U w ?dw}"
        using "1.IH" clean_dropWhile [of U "c # cs"] by blast
      then show ?thesis
        unfolding Cons p findall_from_word [OF True] using maximal_run_word [OF True, of _ cs]
        by (auto simp del: takeWhile.simps dropWhile.simps)
    qed
  qed
qed

lemma findall_words_runs: "set (findall_words U s) = {w. is_maximal_run U w s}"
  unfolding findall_words_def by (rule findall_from_runs) simp

lemma tokens_code: "tokens U s = set (findall_words U (lower U s))"
  by (simp add: tokens_def findall_words_runs)

lemma finite_tokens: "finite (tokens U s)"
  by (simp add: tokens_code)

section \<open>Rounding to doubles\<close>

lemma log2_floor_bounds: "0 < n \<Longrightarrow> 2 ^ log2_floor n \<le> n \<and> n < 2 ^ Suc (log2_floor n)"
proof (induction n rule: log2_floor.induct)
  case (1 n)
  show ?case
  proof (cases "n < 2")
    case True
    with "1.prems" have "log2_floor n = 0" by (simp add: log2_floor.simps [of n])
    with True "1.prems" show ?thesis by simp
  next
    case False
    then have "0 < n div 2" by simp
    with "1.IH" False have ih: "2 ^ log2_floor (n div 2) \<le> n div 2"
      "n div 2 < 2 ^ Suc (log2_floor (n div 2))" by simp_all
    have l: "log2_floor n = Suc (log2_floor (n div 2))"
      using False by (simp add: log2_floor.simps [of n])
    have "2 * 2 ^ log2_floor (n div 2) \<le> 2 * (n div 2)" using ih(1) by simp
    also have "\<dots> \<le> n" by simp
    finally have lo: "2 ^ log2_floor n \<le> n" by (simp add: l)
    have "Suc (n div 2) \<le> 2 ^ Suc (log2_floor (n div 2))" using ih(2) by simp
    then have "2 * Suc (n div 2) \<le> 2 * 2 ^ Suc (log2_floor (n div 2))" by simp
    moreover have "n < 2 * Suc (n div 2)" by simp
    ultimately have "n < 2 ^ Suc (log2_floor n)" by (simp add: l)
    with lo show ?thesis by simp
  qed
qed

lemma binade_bounds:
  assumes "0 < x"
  shows "2 powi binade x \<le> x \<and> x < 2 powi (binade x + 1)"
proof (cases "1 \<le> x")
  case True
  define n where "n = nat \<lfloor>x\<rfloor>"
  have n: "0 < n" using True by (simp add: n_def)
  have fl: "of_nat n \<le> x" "x < of_nat n + 1"
    using True by (simp_all add: n_def) linarith+
  have b: "binade x = int (log2_floor n)" using True by (simp add: binade_def n_def)
  from log2_floor_bounds [OF n] have lo: "2 ^ log2_floor n \<le> n" and hi: "n < 2 ^ Suc (log2_floor n)"
    by simp_all
  have "(2::rat) ^ log2_floor n \<le> of_nat n"
    using lo by (metis of_nat_le_iff of_nat_numeral of_nat_power)
  then have "(2::rat) ^ log2_floor n \<le> x" using fl(1) by (rule order_trans)
  moreover have "2 powi binade x = (2::rat) ^ log2_floor n"
    by (simp only: b power_int_of_nat)
  ultimately have 1: "2 powi binade x \<le> x" by (simp only:)
  have "Suc n \<le> 2 ^ Suc (log2_floor n)" using hi by simp
  then have "(of_nat (Suc n) :: rat) \<le> 2 ^ Suc (log2_floor n)"
    by (metis of_nat_le_iff of_nat_numeral of_nat_power)
  moreover have "x < of_nat (Suc n)" using fl(2) by simp
  ultimately have "x < (2::rat) ^ Suc (log2_floor n)" by (rule less_le_trans [rotated])
  moreover have "binade x + 1 = int (Suc (log2_floor n))" by (simp add: b)
  then have "2 powi (binade x + 1) = (2::rat) ^ Suc (log2_floor n)"
    by (simp only: power_int_of_nat)
  ultimately have "x < 2 powi (binade x + 1)" by (simp only:)
  with 1 show ?thesis by (rule conjI)
next
  case False
  define y where "y = 1 / x"
  have y: "1 < y" using False assms by (simp add: y_def)
  define m where "m = nat (\<lceil>y\<rceil> - 1)"
  have c: "2 \<le> \<lceil>y\<rceil>" using y by linarith
  then have m: "0 < m" by (simp add: m_def)
  have my: "of_nat m < y" "y \<le> of_nat m + 1"
    using c by (simp_all add: m_def) linarith+
  define k where "k = log2_floor m"
  have b: "binade x = - int (Suc k)" using False by (simp add: binade_def k_def m_def y_def)
  from log2_floor_bounds [OF m] have lo: "2 ^ k \<le> m" and hi: "m < 2 ^ Suc k"
    by (simp_all add: k_def)
  have "(2::rat) ^ k \<le> of_nat m"
    using lo by (metis of_nat_le_iff of_nat_numeral of_nat_power)
  then have ylo: "2 ^ k < y" using my(1) by (rule le_less_trans)
  have "Suc m \<le> 2 ^ Suc k" using hi by simp
  then have "(of_nat (Suc m) :: rat) \<le> 2 ^ Suc k"
    by (metis of_nat_le_iff of_nat_numeral of_nat_power)
  moreover have "y \<le> of_nat (Suc m)" using my(2) by simp
  ultimately have yhi: "y \<le> 2 ^ Suc k" by (rule order_trans [rotated])
  have x: "x = 1 / y" using assms by (simp add: y_def)
  have p: "(0::rat) < 2 ^ Suc k" "(0::rat) < 2 ^ k" by simp_all
  have "1 / 2 ^ Suc k \<le> x"
    unfolding x using yhi y p by (simp add: field_simps)
  moreover have "2 powi binade x = (1::rat) / 2 ^ Suc k"
    unfolding b by (simp only: power_int_minus_divide power_int_of_nat)
  ultimately have 1: "2 powi binade x \<le> x" by (simp only:)
  have "x < 1 / 2 ^ k"
    unfolding x using ylo y p by (simp add: field_simps)
  moreover have "binade x + 1 = - int k" by (simp add: b)
  then have "2 powi (binade x + 1) = (1::rat) / 2 ^ k"
    by (simp only: power_int_minus_divide power_int_of_nat)
  ultimately have "x < 2 powi (binade x + 1)" by (simp only:)
  with 1 show ?thesis by (rule conjI)
qed

lemma spacing_pos: "0 < spacing a"
  by (simp add: spacing_def zero_less_power_int)

lemma round_half_even_near: "\<bar>of_int (round_half_even y) - y\<bar> \<le> 1 / 2"
proof -
  have "of_int \<lfloor>y\<rfloor> \<le> y" and "y < of_int \<lfloor>y\<rfloor> + 1" by linarith+
  then show ?thesis
    by (auto simp: round_half_even_def Let_def abs_le_iff)
qed

lemma round_half_even_nonneg: "0 \<le> y \<Longrightarrow> 0 \<le> round_half_even y"
proof -
  assume "0 \<le> y"
  then have "0 \<le> \<lfloor>y\<rfloor>" by simp
  then show ?thesis by (auto simp: round_half_even_def Let_def)
qed

lemma round_half_even_le:
  assumes "y \<le> of_int N"
  shows "round_half_even y \<le> N"
proof (cases "\<lfloor>y\<rfloor> = N")
  case True
  then have "of_int N \<le> y" by (metis of_int_floor_le)
  with assms have "y = of_int N" by simp
  then show ?thesis by (simp add: round_half_even_def)
next
  case False
  have "\<lfloor>y\<rfloor> \<le> N" using assms by (simp add: floor_le_iff)
  with False have "\<lfloor>y\<rfloor> + 1 \<le> N" by simp
  then show ?thesis by (auto simp: round_half_even_def Let_def)
qed

lemma round_to_double_pos:
  "0 < x \<Longrightarrow> round_to_double x = of_int (round_half_even (x / spacing x)) * spacing x"
  by (simp add: round_to_double_def)

lemma round_to_double_error:
  assumes "0 < x"
  shows "\<bar>round_to_double x - x\<bar> \<le> spacing x / 2"
proof -
  let ?g = "spacing x"
  have g: "0 < ?g" by (rule spacing_pos)
  have "\<bar>of_int (round_half_even (x / ?g)) - x / ?g\<bar> * ?g \<le> 1 / 2 * ?g"
    using round_half_even_near [of "x / ?g"] g by (intro mult_right_mono) simp_all
  moreover have "\<bar>of_int (round_half_even (x / ?g)) - x / ?g\<bar> * ?g
      = \<bar>of_int (round_half_even (x / ?g)) * ?g - x\<bar>"
  proof -
    have "\<bar>of_int (round_half_even (x / ?g)) - x / ?g\<bar> * ?g
        = \<bar>(of_int (round_half_even (x / ?g)) - x / ?g) * ?g\<bar>"
      using g by (simp add: abs_mult)
    also have "(of_int (round_half_even (x / ?g)) - x / ?g) * ?g
        = of_int (round_half_even (x / ?g)) * ?g - x"
      using g by (simp add: field_simps)
    finally show ?thesis .
  qed
  ultimately show ?thesis using assms by (simp add: round_to_double_pos)
qed

lemma round_to_double_nonneg: "0 \<le> x \<Longrightarrow> 0 \<le> round_to_double x"
proof (cases "x = 0")
  case True
  then show ?thesis by (simp add: round_to_double_def)
next
  case False
  assume "0 \<le> x"
  with False have x: "0 < x" by simp
  have "0 \<le> x / spacing x" using x spacing_pos [of x] by simp
  then have "0 \<le> round_half_even (x / spacing x)" by (rule round_half_even_nonneg)
  then show ?thesis using spacing_pos [of x] x by (simp add: round_to_double_pos)
qed

lemma binade_less:
  assumes "0 < x" and "x < 2 powi k"
  shows "binade x < k"
proof (rule ccontr)
  assume "\<not> binade x < k"
  then have "k \<le> binade x" by simp
  then have "(2::rat) powi k \<le> 2 powi binade x" by (rule power_int_increasing) simp
  also have "\<dots> \<le> x" using binade_bounds [OF assms(1)] by simp
  finally show False using assms(2) by simp
qed

lemma spacing_le:
  assumes "0 < x" and "x < 2 powi k" and "- 1021 \<le> k"
  shows "spacing x \<le> 2 powi (k - 53)"
proof -
  have "binade x < k" using assms(1,2) by (rule binade_less)
  then have "max (binade x - 52) (- 1074) \<le> k - 53" using assms(3) by simp
  then show ?thesis unfolding spacing_def by (rule power_int_increasing) simp
qed

lemma round_to_double_le_nat:
  assumes "0 \<le> x" and "x \<le> of_nat B" and "B < 2 ^ 53"
  shows "round_to_double x \<le> of_nat B"
proof (cases "x = 0")
  case True
  then show ?thesis by (simp add: round_to_double_def)
next
  case False
  with assms(1) have x: "0 < x" by simp
  have "(of_nat B :: rat) < 2 ^ 53"
    using assms(3) by (metis of_nat_less_iff of_nat_numeral of_nat_power)
  then have "x < 2 ^ 53" using assms(2) by simp
  then have "x < 2 powi 53" by simp
  then have "binade x < 53" using x by (intro binade_less)
  define j where "j = nat (- max (binade x - 52) (- 1074))"
  have q: "max (binade x - 52) (- 1074) = - int j"
    using \<open>binade x < 53\<close> by (simp add: j_def)
  have s: "spacing x = 1 / 2 ^ j"
    unfolding spacing_def q by (simp only: power_int_minus_divide power_int_of_nat)
  have "x / spacing x = x * 2 ^ j" by (simp add: s)
  also have "\<dots> \<le> of_nat B * 2 ^ j" using assms(2) by simp
  also have "\<dots> = of_int (int (B * 2 ^ j))" by simp
  finally have "round_half_even (x / spacing x) \<le> int (B * 2 ^ j)"
    by (rule round_half_even_le)
  then have "(of_int (round_half_even (x / spacing x)) :: rat) \<le> of_int (int (B * 2 ^ j))"
    by (simp only: of_int_le_iff)
  then have "of_int (round_half_even (x / spacing x)) * spacing x
      \<le> of_int (int (B * 2 ^ j)) * spacing x"
    using spacing_pos [of x] by (intro mult_right_mono) simp_all
  also have "of_int (int (B * 2 ^ j)) * spacing x = of_nat B" by (simp add: s)
  finally show ?thesis using x by (simp add: round_to_double_pos)
qed

lemma round_to_double_le_1: "0 \<le> x \<Longrightarrow> x \<le> 1 \<Longrightarrow> round_to_double x \<le> 1"
  using round_to_double_le_nat [of x 1] by simp

lemma round_to_double_le_100: "0 \<le> x \<Longrightarrow> x \<le> 100 \<Longrightarrow> round_to_double x \<le> 100"
  using round_to_double_le_nat [of x 100] by simp

lemma int_truediv_bounds:
  assumes "m \<le> n" and "0 < n"
  shows "0 \<le> int_truediv m n" and "int_truediv m n \<le> 1"
proof -
  have q: "0 \<le> (of_nat m :: rat) / of_nat n" "(of_nat m :: rat) / of_nat n \<le> 1"
    using assms by simp_all
  show "0 \<le> int_truediv m n"
    unfolding int_truediv_def using q(1) by (rule round_to_double_nonneg)
  show "int_truediv m n \<le> 1"
    unfolding int_truediv_def using q by (rule round_to_double_le_1)
qed

lemma double_score_bounds:
  assumes "m \<le> n" and "0 < n"
  shows "0 \<le> float_mul (int_truediv m n) 100 \<and> float_mul (int_truediv m n) 100 \<le> 100"
proof -
  have p: "0 \<le> int_truediv m n * 100" "int_truediv m n * 100 \<le> 100"
    using int_truediv_bounds [OF assms] by simp_all
  have "0 \<le> float_mul (int_truediv m n) 100"
    unfolding float_mul_def using p(1) by (rule round_to_double_nonneg)
  moreover have "float_mul (int_truediv m n) 100 \<le> 100"
    unfolding float_mul_def using p by (rule round_to_double_le_100)
  ultimately show ?thesis by simp
qed

lemma round_to_double_near:
  assumes "0 \<le> x" and "x < 2 powi k" and "- 1021 \<le> k"
  shows "\<bar>round_to_double x - x\<bar> \<le> 2 powi (k - 54)"
proof (cases "x = 0")
  case True
  then show ?thesis by (simp add: round_to_double_def)
next
  case False
  with assms(1) have x: "0 < x" by simp
  have "spacing x / 2 \<le> 2 powi (k - 53) / 2"
    using spacing_le [OF x assms(2,3)] by simp
  also have "\<dots> = 2 powi (k - 54)"
  proof -
    have "(2::rat) powi (k - 53) = 2 powi (k - 54 + 1)" by simp
    also have "\<dots> = 2 powi (k - 54) * 2" by (rule power_int_add_1) simp
    finally show ?thesis by simp
  qed
  finally show ?thesis using round_to_double_error [OF x] by simp
qed

lemma double_score_error:
  assumes "m \<le> n" and "0 < n"
  shows "\<bar>float_mul (int_truediv m n) 100 - 100 * of_nat m / of_nat n\<bar> \<le> 1 / 2 ^ 45"
proof -
  let ?q = "(of_nat m :: rat) / of_nat n"
  let ?d = "int_truediv m n"
  have q: "0 \<le> ?q" "?q \<le> 1" using assms by simp_all
  have "?q < 2 powi 1" using q(2) by simp
  from round_to_double_near [OF q(1) this] have e1: "\<bar>?d - ?q\<bar> \<le> 2 powi (- 53)"
    by (simp add: int_truediv_def)
  have d: "0 \<le> ?d" "?d \<le> 1"
    using int_truediv_bounds [OF assms] by simp_all
  then have p: "0 \<le> ?d * 100" "?d * 100 < 2 powi 7" by simp_all
  from round_to_double_near [OF p] have e2: "\<bar>float_mul ?d 100 - ?d * 100\<bar> \<le> 2 powi (- 47)"
    by (simp add: float_mul_def)
  have t: "\<bar>a - c\<bar> \<le> \<bar>a - b\<bar> + \<bar>b - c\<bar>" for a b c :: rat by arith
  have "?d * 100 - 100 * ?q = 100 * (?d - ?q)" by (simp add: algebra_simps)
  then have "\<bar>?d * 100 - 100 * ?q\<bar> = 100 * \<bar>?d - ?q\<bar>" by (simp only: abs_mult abs_numeral)
  with t [of "float_mul ?d 100" "100 * ?q" "?d * 100"]
  have "\<bar>float_mul ?d 100 - 100 * ?q\<bar>
      \<le> \<bar>float_mul ?d 100 - ?d * 100\<bar> + 100 * \<bar>?d - ?q\<bar>"
    by simp
  also have "\<dots> \<le> 2 powi (- 47) + 100 * 2 powi (- 53)" using e1 e2 by simp
  also have "\<dots> \<le> 1 / 2 ^ 45" by (simp add: power_int_minus_divide)
  finally show ?thesis by simp
qed

section \<open>The comparison\<close>

lemma score_compare:
  "score (compare_with_job_description U order r j) =
     (if card (tokens U j) > 0
      then float_mul (int_truediv (card (tokens U j \<inter> tokens U r)) (card (tokens U j))) 100
      else 0)"
  by (simp add: compare_with_job_description_def Let_def tokens_code)

lemma missing_compare:
  "missing_keywords (compare_with_job_description U order r j) = order (tokens U j - tokens U r)"
  by (simp add: compare_with_job_description_def Let_def tokens_code)

lemma card_tokens_pos: "(0 < card (tokens U j)) = (tokens U j \<noteq> {})"
  using finite_tokens [of U j] by (simp add: card_gt_0_iff)

lemma card_common_le: "card (tokens U j \<inter> tokens U r) \<le> card (tokens U j)"
  using finite_tokens [of U j] by (intro card_mono) auto

lemma lower_empty: "lower U [] = []"
  by (simp add: lower_def)

lemma tokens_empty: "tokens U [] = {}"
  by (simp add: tokens_code lower_empty findall_words_def findall_from_Nil)

lemma sorted_order_lists_each_once: "lists_each_once sorted_list_of_set"
  by (simp add: lists_each_once_def)

lemma lists_each_once_empty: "lists_each_once order \<Longrightarrow> order {} = []"
proof -
  assume "lists_each_once order"
  then have "set (order {}) = {}" unfolding lists_each_once_def by blast
  then show ?thesis by simp
qed

text \<open>
  C1, as the specification states it, fails: the score is computed in double precision,
  and for 11 of 20 job tokens found in the resume it is the double above 55
  (\<open>55.00000000000001\<close>), not 55.
\<close>

theorem compare_score_exact_counterexample:
  "\<not> (score (compare_with_job_description latin1 sorted_list_of_set
              (ustr ''a b c d e f g h i j k'')
              (ustr ''a b c d e f g h i j k l m n o p q r s t''))
        = (if tokens latin1 (ustr ''a b c d e f g h i j k l m n o p q r s t'') = {} then 0
           else 100 * of_nat (card (tokens latin1 (ustr ''a b c d e f g h i j k l m n o p q r s t'')
                                     \<inter> tokens latin1 (ustr ''a b c d e f g h i j k'')))
                  / of_nat (card (tokens latin1 (ustr ''a b c d e f g h i j k l m n o p q r s t'')))))"
proof -
  have s: "score (compare_with_job_description latin1 sorted_list_of_set
              (ustr ''a b c d e f g h i j k'')
              (ustr ''a b c d e f g h i j k l m n o p q r s t''))
      = 7740561859543041 / 140737488355328"
    by code_simp
  have j: "card (tokens latin1 (ustr ''a b c d e f g h i j k l m n o p q r s t'')) = 20"
    unfolding tokens_code by code_simp
  have c: "card (tokens latin1 (ustr ''a b c d e f g h i j k l m n o p q r s t'')
                  \<inter> tokens latin1 (ustr ''a b c d e f g h i j k'')) = 11"
    unfolding tokens_code by code_simp
  have n: "tokens latin1 (ustr ''a b c d e f g h i j k l m n o p q r s t'') \<noteq> {}"
    using j by auto
  show ?thesis unfolding s j c using n by simp
qed

text \<open>
  C1, amended. For every resume text and job description, the comparison tokenizes both
  strings by lowercasing them and extracting the maximal runs of word characters into
  sets, and returns the score 0 when the job description has no token, and otherwise the
  double-precision product by 100 of the double-precision quotient of the number of job
  tokens that are resume tokens and the number of job tokens; this score differs from
  100 times the exact quotient by at most \<open>1 / 2 ^ 45\<close>.
\<close>

theorem compare_score_spec:
  "set (findall_words U (lower U resume_text)) = tokens U resume_text
   \<and> set (findall_words U (lower U job_description)) = tokens U job_description
   \<and> score (compare_with_job_description U order resume_text job_description) =
       (if tokens U job_description = {} then 0
        else float_mul
               (int_truediv (card (tokens U job_description \<inter> tokens U resume_text))
                            (card (tokens U job_description))) 100)
   \<and> (tokens U job_description \<noteq> {} \<longrightarrow>
        \<bar>score (compare_with_job_description U order resume_text job_description)
           - 100 * of_nat (card (tokens U job_description \<inter> tokens U resume_text))
               / of_nat (card (tokens U job_description))\<bar> \<le> 1 / 2 ^ 45)"
proof (intro conjI impI)
  show "set (findall_words U (lower U resume_text)) = tokens U resume_text"
    by (simp add: tokens_code)
  show "set (findall_words U (lower U job_description)) = tokens U job_description"
    by (simp add: tokens_code)
  show "score (compare_with_job_description U order resume_text job_description) =
       (if tokens U job_description = {} then 0
        else float_mul
               (int_truediv (card (tokens U job_description \<inter> tokens U resume_text))
                            (card (tokens U job_description))) 100)"
    using card_tokens_pos [of U job_description] by (simp add: score_compare)
next
  assume n: "tokens U job_description \<noteq> {}"
  then have p: "0 < card (tokens U job_description)" by (simp add: card_tokens_pos)
  then have "score (compare_with_job_description U order resume_text job_description)
      = float_mul (int_truediv (card (tokens U job_description \<inter> tokens U resume_text))
                               (card (tokens U job_description))) 100"
    by (simp add: score_compare)
  then show "\<bar>score (compare_with_job_description U order resume_text job_description)
           - 100 * of_nat (card (tokens U job_description \<inter> tokens U resume_text))
               / of_nat (card (tokens U job_description))\<bar> \<le> 1 / 2 ^ 45"
    using double_score_error [OF card_common_le p, of resume_text] by simp
qed

theorem compare_score_spec_witness:
  "tokens latin1 ([82, 201] @ ustr ''SUM'' @ [201] @ ustr '': C++ node.js, foo_bar 9x'')
     = {[114, 233] @ ustr ''sum'' @ [233], ustr ''c'', ustr ''node'', ustr ''js'',
        ustr ''foo_bar'', ustr ''9x''}
   \<and> score (compare_with_job_description latin1 sorted_list_of_set
        (ustr ''Python developer with Flask experience'') (ustr ''Python Flask SQL developer''))
       = 75
   \<and> score (compare_with_job_description latin1 sorted_list_of_set
        (ustr ''a'') (ustr ''a '' @ [233])) = 50
   \<and> \<bar>7740561859543041 / 140737488355328
        - 100 * of_nat (card (tokens latin1 (ustr ''a b c d e f g h i j k l m n o p q r s t'')
                               \<inter> tokens latin1 (ustr ''a b c d e f g h i j k'')))
            / of_nat (card (tokens latin1 (ustr ''a b c d e f g h i j k l m n o p q r s t'')))\<bar>
       \<le> (1 :: rat) / 2 ^ 45"
proof -
  have t: "set (findall_words latin1
        (lower latin1 ([82, 201] @ ustr ''SUM'' @ [201] @ ustr '': C++ node.js, foo_bar 9x'')))
     = {[114, 233] @ ustr ''sum'' @ [233], ustr ''c'', ustr ''node'', ustr ''js'',
        ustr ''foo_bar'', ustr ''9x''}"
    by code_simp
  have a: "score (compare_with_job_description latin1 sorted_list_of_set
        (ustr ''Python developer with Flask experience'') (ustr ''Python Flask SQL developer''))
       = 75"
    by code_simp
  have b: "score (compare_with_job_description latin1 sorted_list_of_set
        (ustr ''a'') (ustr ''a '' @ [233])) = 50"
    by code_simp
  have s: "score (compare_with_job_description latin1 sorted_list_of_set
              (ustr ''a b c d e f g h i j k'')
              (ustr ''a b c d e f g h i j k l m n o p q r s t''))
      = 7740561859543041 / 140737488355328"
    by code_simp
  have n: "tokens latin1 (ustr ''a b c d e f g h i j k l m n o p q r s t'') \<noteq> {}"
    unfolding tokens_code by code_simp
  note spec1 = compare_score_spec [of latin1
      "[82, 201] @ ustr ''SUM'' @ [201] @ ustr '': C++ node.js, foo_bar 9x''" "[]"
      sorted_list_of_set]
  note spec2 = compare_score_spec [of latin1 "ustr ''a b c d e f g h i j k''"
      "ustr ''a b c d e f g h i j k l m n o p q r s t''" sorted_list_of_set]
  from spec1 t have 1: "tokens latin1
        ([82, 201] @ ustr ''SUM'' @ [201] @ ustr '': C++ node.js, foo_bar 9x'')
     = {[114, 233] @ ustr ''sum'' @ [233], ustr ''c'', ustr ''node'', ustr ''js'',
        ustr ''foo_bar'', ustr ''9x''}"
    by simp
  from spec2 n have "\<bar>score (compare_with_job_description latin1 sorted_list_of_set
              (ustr ''a b c d e f g h i j k'')
              (ustr ''a b c d e f g h i j k l m n o p q r s t''))
        - 100 * of_nat (card (tokens latin1 (ustr ''a b c d e f g h i j k l m n o p q r s t'')
                               \<inter> tokens latin1 (ustr ''a b c d e f g h i j k'')))
            / of_nat (card (tokens latin1 (ustr ''a b c d e f g h i j k l m n o p q r s t'')))\<bar>
       \<le> (1 :: rat) / 2 ^ 45"
    by blast
  then have 2: "\<bar>7740561859543041 / 140737488355328
        - 100 * of_nat (card (tokens latin1 (ustr ''a b c d e f g h i j k l m n o p q r s t'')
                               \<inter> tokens latin1 (ustr ''a b c d e f g h i j k'')))
            / of_nat (card (tokens latin1 (ustr ''a b c d e f g h i j k l m n o p q r s t'')))\<bar>
       \<le> (1 :: rat) / 2 ^ 45"
    by (simp only: s)
  from 1 a b 2 show ?thesis by (intro conjI)
qed

text \<open>
  C2. For every pair of input strings, every iteration order and every value of the
  Unicode tables, the score returned by \<open>compare_with_job_description\<close> lies in the closed
  interval from 0 to 100.
\<close>

theorem score_in_range:
  "0 \<le> score (compare_with_job_description U order r j)
   \<and> score (compare_with_job_description U order r j) \<le> 100"
proof (cases "card (tokens U j) > 0")
  case True
  from double_score_bounds [OF card_common_le True, of r] True show ?thesis
    by (simp only: score_compare if_True)
next
  case False
  then show ?thesis by (simp add: score_compare)
qed

theorem score_in_range_witness:
  "0 \<le> score (compare_with_job_description latin1 sorted_list_of_set
            (ustr ''Python developer with Flask experience'') (ustr ''Python Flask SQL developer''))
   \<and> score (compare_with_job_description latin1 sorted_list_of_set
            (ustr ''Python developer with Flask experience'') (ustr ''Python Flask SQL developer''))
       \<le> 100"
  by (rule score_in_range)

text \<open>
  C3. For every pair of input strings, and every iteration order that lists each element
  of a finite set once, the \<open>missing_keywords\<close> returned by the comparison list the set
  difference of the job tokens and the resume tokens: every element is a token of the job
  description and not a token of the resume, every token of the job description that is
  not a token of the resume is an element, and no element occurs twice. The order of the
  elements is that of the iteration order.
\<close>

theorem missing_keywords_spec:
  assumes "lists_each_once order"
  shows "set (missing_keywords (compare_with_job_description U order r j))
      = tokens U j - tokens U r
    \<and> distinct (missing_keywords (compare_with_job_description U order r j))
    \<and> (\<forall>w \<in> set (missing_keywords (compare_with_job_description U order r j)).
          w \<in> tokens U j \<and> w \<notin> tokens U r)
    \<and> (\<forall>w \<in> tokens U j. w \<notin> tokens U r
          \<longrightarrow> w \<in> set (missing_keywords (compare_with_job_description U order r j)))"
proof -
  have "finite (tokens U j - tokens U r)" using finite_tokens by simp
  with assms have "set (order (tokens U j - tokens U r)) = tokens U j - tokens U r
      \<and> distinct (order (tokens U j - tokens U r))"
    unfolding lists_each_once_def by blast
  then have "set (missing_keywords (compare_with_job_description U order r j))
        = tokens U j - tokens U r
      \<and> distinct (missing_keywords (compare_with_job_description U order r j))"
    by (simp add: missing_compare)
  then show ?thesis by blast
qed

theorem missing_keywords_spec_witness:
  "lists_each_once sorted_list_of_set
   \<and> tokens latin1 (ustr ''Python Flask SQL developer'')
       - tokens latin1 (ustr ''Python developer with Flask experience'') = {ustr ''sql''}
   \<and> tokens latin1 ([82, 201] @ ustr ''sum'' @ [201]) - tokens latin1 (ustr ''r sum'')
       = {[114, 233] @ ustr ''sum'' @ [233]}"
proof -
  note spec1 = missing_keywords_spec [OF sorted_order_lists_each_once, of latin1
      "ustr ''Python developer with Flask experience''" "ustr ''Python Flask SQL developer''"]
  note spec2 = missing_keywords_spec [OF sorted_order_lists_each_once, of latin1
      "ustr ''r sum''" "[82, 201] @ ustr ''sum'' @ [201]"]
  have "missing_keywords (compare_with_job_description latin1 sorted_list_of_set
      (ustr ''Python developer with Flask experience'') (ustr ''Python Flask SQL developer''))
      = [ustr ''sql'']"
    by code_simp
  with spec1 have 1: "tokens latin1 (ustr ''Python Flask SQL developer'')
      - tokens latin1 (ustr ''Python developer with Flask experience'') = {ustr ''sql''}"
    by simp
  have "missing_keywords (compare_with_job_description latin1 sorted_list_of_set
      (ustr ''r sum'') ([82, 201] @ ustr ''sum'' @ [201]))
      = [[114, 233] @ ustr ''sum'' @ [233]]"
    by code_simp
  with spec2 have 2: "tokens latin1 ([82, 201] @ ustr ''sum'' @ [201])
      - tokens latin1 (ustr ''r sum'') = {[114, 233] @ ustr ''sum'' @ [233]}"
    by simp
  from sorted_order_lists_each_once 1 2 show ?thesis by (intro conjI)
qed

lemma optimize_resume_no_missing:
  "missing_keywords a = [] \<Longrightarrow> optimize_resume t j a = t"
  by (simp add: optimize_resume_def)

text \<open>
  C4. For every resume text, and every iteration order that lists each element of a finite
  set once: when the job description is the empty string, the comparison returns the
  score 0 and no missing keyword (it is a total function: nothing is raised), and
  \<open>optimize_resume\<close> applied to that analysis returns the resume text unchanged.
\<close>

theorem empty_job_description:
  assumes "lists_each_once order"
  shows "compare_with_job_description U order r [] = \<lparr>score = 0, missing_keywords = []\<rparr>
    \<and> optimize_resume r [] (compare_with_job_description U order r []) = r"
proof -
  have "findall_words U (lower U []) = []"
    by (simp add: lower_empty findall_words_def findall_from_Nil)
  then have "compare_with_job_description U order r []
      = \<lparr>score = 0, missing_keywords = order {}\<rparr>"
    by (simp add: compare_with_job_description_def)
  then have c: "compare_with_job_description U order r []
      = \<lparr>score = 0, missing_keywords = []\<rparr>"
    using lists_each_once_empty [OF assms] by simp
  then have "optimize_resume r [] (compare_with_job_description U order r []) = r"
    by (simp add: optimize_resume_no_missing)
  with c show ?thesis by simp
qed

theorem empty_job_description_witness:
  "lists_each_once sorted_list_of_set
   \<and> compare_with_job_description latin1 sorted_list_of_set (ustr ''Python developer'') []
       = \<lparr>score = 0, missing_keywords = []\<rparr>
   \<and> optimize_resume (ustr ''Python developer'') []
         (compare_with_job_description latin1 sorted_list_of_set (ustr ''Python developer'') [])
       = ustr ''Python developer''"
  using sorted_order_lists_each_once
    empty_job_description [OF sorted_order_lists_each_once, of latin1 "ustr ''Python developer''"]
  by (rule conjI)

text \<open>
  C7, as the specification states it, fails where the job description has no token: then
  every one of its tokens is a token of the resume, and the score is 0, not 100.
\<close>

theorem full_match_counterexample:
  "\<not> (tokens latin1 [] \<subseteq> tokens latin1 (ustr ''python'')
       \<longrightarrow> score (compare_with_job_description latin1 sorted_list_of_set (ustr ''python'') []) = 100
           \<and> missing_keywords
               (compare_with_job_description latin1 sorted_list_of_set (ustr ''python'') []) = [])"
proof -
  have "tokens latin1 [] = {}" by (rule tokens_empty)
  moreover have "score (compare_with_job_description latin1 sorted_list_of_set (ustr ''python'') [])
      = 0"
    by (simp add: score_compare tokens_empty)
  ultimately show ?thesis by simp
qed

lemma double_full_score: "0 < n \<Longrightarrow> float_mul (int_truediv n n) 100 = 100"
proof -
  assume "0 < n"
  then have "(of_nat n :: rat) / of_nat n = 1" by simp
  moreover have "round_to_double 1 = 1" by code_simp
  moreover have "round_to_double 100 = 100" by code_simp
  ultimately show ?thesis by (simp add: float_mul_def int_truediv_def)
qed

text \<open>
  C7, amended. For every pair of input strings, and every iteration order that lists each
  element of a finite set once: if the job description has at least one token and every
  token of the job description is a token of the resume, the comparison returns the score
  100 and no missing keyword.
\<close>

theorem full_match_score:
  assumes "lists_each_once order" and "tokens U j \<noteq> {}" and "tokens U j \<subseteq> tokens U r"
  shows "score (compare_with_job_description U order r j) = 100
    \<and> missing_keywords (compare_with_job_description U order r j) = []"
proof -
  have d: "tokens U j - tokens U r = {}" using assms(3) by blast
  have m: "missing_keywords (compare_with_job_description U order r j) = []"
    by (simp only: missing_compare d lists_each_once_empty [OF assms(1)])
  have i: "tokens U j \<inter> tokens U r = tokens U j" using assms(3) by blast
  have p: "0 < card (tokens U j)" using assms(2) by (simp add: card_tokens_pos)
  then have "score (compare_with_job_description U order r j) = 100"
    by (simp add: score_compare i double_full_score)
  with m show ?thesis by simp
qed

theorem full_match_score_witness:
  "lists_each_once sorted_list_of_set
   \<and> tokens latin1 (ustr ''flask R'' @ [201] @ ustr ''SUM'' @ [201]) \<noteq> {}
   \<and> tokens latin1 (ustr ''flask R'' @ [201] @ ustr ''SUM'' @ [201])
       \<subseteq> tokens latin1 (ustr ''My r'' @ [233] @ ustr ''sum'' @ [233] @ ustr '': Flask, SQL'')
   \<and> score (compare_with_job_description latin1 sorted_list_of_set
         (ustr ''My r'' @ [233] @ ustr ''sum'' @ [233] @ ustr '': Flask, SQL'')
         (ustr ''flask R'' @ [201] @ ustr ''SUM'' @ [201])) = 100
   \<and> missing_keywords (compare_with_job_description latin1 sorted_list_of_set
         (ustr ''My r'' @ [233] @ ustr ''sum'' @ [233] @ ustr '': Flask, SQL'')
         (ustr ''flask R'' @ [201] @ ustr ''SUM'' @ [201])) = []"
proof -
  have ne: "tokens latin1 (ustr ''flask R'' @ [201] @ ustr ''SUM'' @ [201]) \<noteq> {}"
    unfolding tokens_code by code_simp
  have sub: "tokens latin1 (ustr ''flask R'' @ [201] @ ustr ''SUM'' @ [201])
       \<subseteq> tokens latin1 (ustr ''My r'' @ [233] @ ustr ''sum'' @ [233] @ ustr '': Flask, SQL'')"
    unfolding tokens_code by code_simp
  from full_match_score [OF sorted_order_lists_each_once ne sub]
  show ?thesis using sorted_order_lists_each_once ne sub by simp
qed

section \<open>The optimizer\<close>

lemma round_half_even_nearest:
  "\<bar>of_int (round_half_even y) - y\<bar> < 1 / 2
   \<or> (\<bar>of_int (round_half_even y) - y\<bar> = 1 / 2 \<and> even (round_half_even y))"
proof -
  define d where "d = y - of_int \<lfloor>y\<rfloor>"
  have d: "0 \<le> d" "d < 1" unfolding d_def by linarith+
  have y: "y = of_int \<lfloor>y\<rfloor> + d" by (simp add: d_def)
  consider "d < 1 / 2" | "1 / 2 < d" | "d = 1 / 2" "even \<lfloor>y\<rfloor>" | "d = 1 / 2" "odd \<lfloor>y\<rfloor>"
    by linarith
  then show ?thesis
  proof cases
    case 1
    then have "round_half_even y = \<lfloor>y\<rfloor>" by (simp add: round_half_even_def d_def)
    moreover have "\<bar>of_int \<lfloor>y\<rfloor> - y\<bar> = d" using d by (simp add: d_def)
    ultimately show ?thesis using 1 by simp
  next
    case 2
    then have "round_half_even y = \<lfloor>y\<rfloor> + 1" by (simp add: round_half_even_def d_def)
    moreover have "\<bar>of_int (\<lfloor>y\<rfloor> + 1) - y\<bar> = 1 - d" using d by (simp add: d_def)
    ultimately show ?thesis using 2 by simp
  next
    case 3
    then have "round_half_even y = \<lfloor>y\<rfloor>" by (simp add: round_half_even_def d_def)
    moreover have "\<bar>of_int \<lfloor>y\<rfloor> - y\<bar> = d" using d by (simp add: d_def)
    ultimately show ?thesis using 3 by simp
  next
    case 4
    then have "round_half_even y = \<lfloor>y\<rfloor> + 1" by (simp add: round_half_even_def d_def)
    moreover have "\<bar>of_int (\<lfloor>y\<rfloor> + 1) - y\<bar> = 1 - d" using d by (simp add: d_def)
    ultimately show ?thesis using 4 by simp
  qed
qed

lemma nearest_tenths_round:
  assumes "0 \<le> x"
  shows "nearest_tenths x (nat (round_half_even (x * 10)))"
proof -
  let ?r = "round_half_even (x * 10)"
  have "0 \<le> ?r" using assms by (intro round_half_even_nonneg) simp
  then have r: "of_nat (nat ?r) = (of_int ?r :: rat)" "even (nat ?r) = even ?r"
    by (simp_all add: even_nat_iff)
  show ?thesis
    unfolding nearest_tenths_def r using round_half_even_nearest [of "x * 10"] .
qed

lemma show_nat_small: "n < 10 \<Longrightarrow> show_nat n = [48 + n]"
  by (simp add: show_nat.simps [of n])

lemma show_nat_large:
  "\<not> n < 10 \<Longrightarrow> show_nat n = show_nat (n div 10) @ [48 + n mod 10]"
  by (simp add: show_nat.simps [of n])

lemma show_nat_not_Nil: "show_nat n \<noteq> []"
  by (cases "n < 10") (simp_all add: show_nat_small show_nat_large)

lemma show_nat_digits: "list_all is_digit (show_nat n)"
proof (induction n rule: show_nat.induct)
  case (1 n)
  have "n mod 10 < 10" by simp
  then have "is_digit (48 + n mod 10)" by (simp add: is_digit_def)
  then show ?case
    using 1 by (cases "n < 10") (simp_all add: show_nat_small show_nat_large is_digit_def)
qed

lemma decimal_value_snoc: "decimal_value (ds @ [c]) = 10 * decimal_value ds + (c - 48)"
  by (simp add: decimal_value_def)

lemma decimal_value_show_nat: "decimal_value (show_nat n) = n"
proof (induction n rule: show_nat.induct)
  case (1 n)
  show ?case
  proof (cases "n < 10")
    case True
    then show ?thesis by (simp add: show_nat_small decimal_value_def)
  next
    case False
    with 1 have "decimal_value (show_nat (n div 10)) = n div 10" by simp
    then show ?thesis using False by (simp add: show_nat_large decimal_value_snoc)
  qed
qed

lemma show_nat_no_leading_zero: "0 < n \<Longrightarrow> hd (show_nat n) \<noteq> 48"
proof (induction n rule: show_nat.induct)
  case (1 n)
  show ?case
  proof (cases "n < 10")
    case True
    with "1.prems" show ?thesis by (simp add: show_nat_small)
  next
    case False
    then have "0 < n div 10" by simp
    with 1 False have "hd (show_nat (n div 10)) \<noteq> 48" by simp
    then show ?thesis using False show_nat_not_Nil [of "n div 10"] by (simp add: show_nat_large)
  qed
qed

lemma writes_nat_show_nat: "writes_nat (show_nat n) n"
proof -
  have "length (show_nat n) = 1 \<or> hd (show_nat n) \<noteq> 48"
  proof (cases "n = 0")
    case True
    then show ?thesis by (simp add: show_nat_small)
  next
    case False
    then show ?thesis using show_nat_no_leading_zero [of n] by simp
  qed
  then show ?thesis
    unfolding writes_nat_def
    using show_nat_not_Nil show_nat_digits decimal_value_show_nat by blast
qed

lemma format_1f_one_decimal: "one_decimal x (format_1f x)"
proof -
  define n where "n = nat (round_half_even (\<bar>x\<bar> * 10))"
  have t: "n mod 10 < 10" by simp
  have f: "format_1f x = (if x < 0 then [45] else []) @ show_nat (n div 10) @ [46] @ [48 + n mod 10]"
    using t by (simp add: format_1f_def n_def [symmetric] Let_def show_nat_small ustr_def)
  have "nearest_tenths \<bar>x\<bar> n" unfolding n_def by (rule nearest_tenths_round) simp
  moreover have "writes_nat (show_nat (n div 10)) (n div 10)" by (rule writes_nat_show_nat)
  moreover have "is_digit (48 + n mod 10)" using t by (simp add: is_digit_def)
  moreover have "48 + n mod 10 - 48 = n mod 10" by simp
  ultimately show ?thesis unfolding one_decimal_def f by blast
qed

lemma concat_enumerate_later:
  "0 < n \<Longrightarrow>
   concat (map (\<lambda>(i, k). if i = 0 then k else sep @ k) (enumerate n ks))
     = concat (map (\<lambda>k. sep @ k) ks)"
  by (induction ks arbitrary: n) simp_all

lemma str_join_Cons_concat: "str_join sep (k # ks) = k @ concat (map (\<lambda>k. sep @ k) ks)"
  by (induction ks arbitrary: k) simp_all

lemma str_join_comma: "str_join [44, 32] ks = comma_joined ks"
proof (cases ks)
  case Nil
  then show ?thesis by (simp add: comma_joined_def)
next
  case (Cons k ks')
  have "comma_joined (k # ks')
      = k @ concat (map (\<lambda>(i, k). if i = 0 then k else [44, 32] @ k) (enumerate (Suc 0) ks'))"
    by (simp only: comma_joined_def enumerate_simps list.map concat.simps prod.case
        if_True simp_thms)
  also have "\<dots> = k @ concat (map (\<lambda>k. [44, 32] @ k) ks')"
    by (simp only: concat_enumerate_later [OF zero_less_Suc])
  also have "\<dots> = str_join [44, 32] (k # ks')"
    by (simp only: str_join_Cons_concat)
  finally show ?thesis unfolding Cons by simp
qed

lemma optimize_resume_missing:
  "missing_keywords a \<noteq> [] \<Longrightarrow>
   optimize_resume t j a =
     t @ ustr ''\<newline>\<newline>--- OPTIMIZATION SUGGESTIONS ---\<newline>Consider adding these keywords: ''
       @ comma_joined (take 10 (missing_keywords a))
       @ ustr ''\<newline>Your resume matches '' @ format_1f (score a)
       @ ustr ''% of job requirements.\<newline>''"
  by (simp add: optimize_resume_def Let_def str_join_comma ustr_def)

text \<open>
  C5. For every resume text and analysis: if the list of missing keywords of the analysis
  is empty, \<open>optimize_resume\<close> returns the text unchanged, so applying it again with that
  analysis changes nothing; if the list is not empty, it returns the text followed by a
  block of fixed format that holds the first ten (at most) missing keywords, a comma and
  a space between them, and the score written with one decimal place.
\<close>

theorem optimize_resume_spec:
  "(missing_keywords a = [] \<longrightarrow>
      optimize_resume t j a = t \<and> optimize_resume (optimize_resume t j a) j a = t)
   \<and> (missing_keywords a \<noteq> [] \<longrightarrow>
      (\<exists>shown. one_decimal (score a) shown
         \<and> optimize_resume t j a =
             t @ ustr ''\<newline>\<newline>--- OPTIMIZATION SUGGESTIONS ---\<newline>Consider adding these keywords: ''
               @ comma_joined (take (min 10 (length (missing_keywords a))) (missing_keywords a))
               @ ustr ''\<newline>Your resume matches '' @ shown
               @ ustr ''% of job requirements.\<newline>''))"
proof (intro conjI impI)
  assume "missing_keywords a = []"
  then show "optimize_resume t j a = t" by (rule optimize_resume_no_missing)
next
  assume e: "missing_keywords a = []"
  then have "optimize_resume t j a = t" by (rule optimize_resume_no_missing)
  then show "optimize_resume (optimize_resume t j a) j a = t" by simp
next
  assume n: "missing_keywords a \<noteq> []"
  have "take (min 10 (length (missing_keywords a))) (missing_keywords a)
      = take 10 (missing_keywords a)"
    by (simp add: min_def)
  with optimize_resume_missing [OF n, of t j] format_1f_one_decimal [of "score a"]
  show "\<exists>shown. one_decimal (score a) shown
         \<and> optimize_resume t j a =
             t @ ustr ''\<newline>\<newline>--- OPTIMIZATION SUGGESTIONS ---\<newline>Consider adding these keywords: ''
               @ comma_joined (take (min 10 (length (missing_keywords a))) (missing_keywords a))
               @ ustr ''\<newline>Your resume matches '' @ shown
               @ ustr ''% of job requirements.\<newline>''"
    by (intro exI [of _ "format_1f (score a)"]) simp
qed

theorem optimize_resume_spec_witness:
  "optimize_resume (ustr ''Resume'') (ustr ''job'') \<lparr>score = 100, missing_keywords = []\<rparr>
     = ustr ''Resume''
   \<and> optimize_resume (ustr ''Resume'') (ustr ''job'')
       \<lparr>score = 75, missing_keywords = [ustr ''sql'', ustr ''aws'']\<rparr>
     = ustr ''Resume\<newline>\<newline>--- OPTIMIZATION SUGGESTIONS ---\<newline>Consider adding these keywords: sql, aws\<newline>Your resume matches 75.0% of job requirements.\<newline>''
   \<and> one_decimal 75 (ustr ''75.0'')
   \<and> optimize_resume (ustr ''R'') (ustr ''j'')
       \<lparr>score = 8092405580431359 / 281474976710656,
        missing_keywords = map (\<lambda>n. [97 + n]) [0 ..< 12]\<rparr>
     = ustr ''R\<newline>\<newline>--- OPTIMIZATION SUGGESTIONS ---\<newline>Consider adding these keywords: a, b, c, d, e, f, g, h, i, j\<newline>Your resume matches 28.7% of job requirements.\<newline>''"
proof -
  let ?pre = "ustr ''Resume'' @ ustr ''\<newline>\<newline>--- OPTIMIZATION SUGGESTIONS ---\<newline>Consider adding these keywords: ''
      @ comma_joined (take (min 10 (length [ustr ''sql'', ustr ''aws''])) [ustr ''sql'', ustr ''aws''])
      @ ustr ''\<newline>Your resume matches ''"
  let ?post = "ustr ''% of job requirements.\<newline>''"
  have 1: "optimize_resume (ustr ''Resume'') (ustr ''job'') \<lparr>score = 100, missing_keywords = []\<rparr>
     = ustr ''Resume''"
    using optimize_resume_spec [of "\<lparr>score = 100, missing_keywords = []\<rparr>"
        "ustr ''Resume''" "ustr ''job''"]
    by simp
  have 2: "optimize_resume (ustr ''Resume'') (ustr ''job'')
       \<lparr>score = 75, missing_keywords = [ustr ''sql'', ustr ''aws'']\<rparr>
     = ustr ''Resume\<newline>\<newline>--- OPTIMIZATION SUGGESTIONS ---\<newline>Consider adding these keywords: sql, aws\<newline>Your resume matches 75.0% of job requirements.\<newline>''"
    by code_simp
  have e2: "optimize_resume (ustr ''Resume'') (ustr ''job'')
       \<lparr>score = 75, missing_keywords = [ustr ''sql'', ustr ''aws'']\<rparr>
     = ?pre @ ustr ''75.0'' @ ?post"
    unfolding 2 by code_simp
  from optimize_resume_spec [of "\<lparr>score = 75, missing_keywords = [ustr ''sql'', ustr ''aws'']\<rparr>"
        "ustr ''Resume''" "ustr ''job''"]
  obtain shown where s: "one_decimal 75 shown"
    and o: "optimize_resume (ustr ''Resume'') (ustr ''job'')
       \<lparr>score = 75, missing_keywords = [ustr ''sql'', ustr ''aws'']\<rparr> = ?pre @ shown @ ?post"
    by auto
  from o e2 have "?pre @ shown @ ?post = ?pre @ ustr ''75.0'' @ ?post" by simp
  then have "shown = ustr ''75.0''" by (simp only: same_append_eq append_same_eq)
  with s have 3: "one_decimal 75 (ustr ''75.0'')" by simp
  have 4: "optimize_resume (ustr ''R'') (ustr ''j'')
       \<lparr>score = 8092405580431359 / 281474976710656,
        missing_keywords = map (\<lambda>n. [97 + n]) [0 ..< 12]\<rparr>
     = ustr ''R\<newline>\<newline>--- OPTIMIZATION SUGGESTIONS ---\<newline>Consider adding these keywords: a, b, c, d, e, f, g, h, i, j\<newline>Your resume matches 28.7% of job requirements.\<newline>''"
    by code_simp
  from 1 2 3 4 show ?thesis by (intro conjI)
qed

section \<open>The exported document\<close>

lemma dropWhile_all_iff: "(dropWhile P xs = []) = (\<forall>x \<in> set xs. P x)"
  by (simp add: dropWhile_eq_Nil_conv)

lemma strip_empty_iff: "(strip U s = []) = blank U s"
proof
  assume "strip U s = []"
  then have "\<forall>c \<in> set (dropWhile (is_space U) s). is_space U c"
    by (simp add: strip_def dropWhile_all_iff)
  then have "dropWhile (is_space U) s = []"
    using hd_dropWhile [of "is_space U" s] hd_in_set [of "dropWhile (is_space U) s"] by blast
  then show "blank U s" by (simp add: blank_def dropWhile_all_iff)
next
  assume "blank U s"
  then have d: "dropWhile (is_space U) s = []" by (simp add: blank_def dropWhile_all_iff)
  show "strip U s = []" by (simp only: strip_def d rev.simps dropWhile.simps)
qed

lemma add_paragraphs_filter:
  "add_paragraphs U ps doc = doc @ map Paragraph (filter (\<lambda>l. \<not> blank U l) ps)"
  by (induction ps arbitrary: doc) (simp_all add: add_paragraph_def strip_empty_iff)

lemma split_not_Nil: "split sep s \<noteq> []"
  by (induction s) (auto split: list.splits)

lemma split_no_sep: "l \<in> set (split sep s) \<Longrightarrow> sep \<notin> set l"
proof (induction s arbitrary: l)
  case Nil
  then show ?case by simp
next
  case (Cons c cs)
  show ?case
  proof (cases "c = sep")
    case True
    with Cons show ?thesis by auto
  next
    case False
    obtain w ws where w: "split sep cs = w # ws"
      using split_not_Nil [of sep cs] by (cases "split sep cs") auto
    with Cons.prems False have "l = c # w \<or> l \<in> set ws" by simp
    moreover have "sep \<notin> set w" using Cons.IH [of w] w by simp
    moreover have "l \<in> set ws \<Longrightarrow> sep \<notin> set l" using Cons.IH [of l] w by simp
    ultimately show ?thesis using False by auto
  qed
qed

lemma lines_text_Cons:
  "ls \<noteq> [] \<Longrightarrow>
   concat (map (\<lambda>l. l @ [sep]) (butlast (l # ls))) @ last (l # ls)
     = l @ sep # (concat (map (\<lambda>l. l @ [sep]) (butlast ls)) @ last ls)"
  by simp

lemma lines_text_split:
  "concat (map (\<lambda>l. l @ [sep]) (butlast (split sep s))) @ last (split sep s) = s"
proof (induction s)
  case Nil
  then show ?case by simp
next
  case (Cons c cs)
  obtain w ws where w: "split sep cs = w # ws"
    using split_not_Nil [of sep cs] by (cases "split sep cs") auto
  show ?case
  proof (cases "c = sep")
    case True
    then have "split sep (c # cs) = [] # split sep cs" by simp
    then show ?thesis
      using Cons lines_text_Cons [OF split_not_Nil, of sep "[]" sep cs] True by simp
  next
    case False
    then have s: "split sep (c # cs) = (c # w) # ws" using w by simp
    show ?thesis
    proof (cases "ws = []")
      case True
      with Cons w show ?thesis unfolding s by simp
    next
      case False
      with Cons w show ?thesis unfolding s by simp
    qed
  qed
qed

lemma split_line_first:
  "sep \<notin> set l \<Longrightarrow> split sep (l @ sep # s) = l # split sep s"
  by (induction l) auto

lemma split_line_only: "sep \<notin> set l \<Longrightarrow> split sep l = [l]"
  by (induction l) auto

lemma split_lines_text:
  "ls \<noteq> [] \<Longrightarrow> (\<forall>l \<in> set ls. sep \<notin> set l) \<Longrightarrow>
   split sep (concat (map (\<lambda>l. l @ [sep]) (butlast ls)) @ last ls) = ls"
proof (induction ls)
  case Nil
  then show ?case by simp
next
  case (Cons l ls)
  show ?case
  proof (cases "ls = []")
    case True
    with Cons.prems show ?thesis by (simp add: split_line_only)
  next
    case False
    with Cons have "split sep (concat (map (\<lambda>l. l @ [sep]) (butlast ls)) @ last ls) = ls"
      by simp
    moreover have "sep \<notin> set l" using Cons.prems by simp
    ultimately show ?thesis
      unfolding lines_text_Cons [OF False] by (simp add: split_line_first)
  qed
qed

lemma lines_of_split: "lines_of t (split 10 t)"
  unfolding lines_of_def
  using split_not_Nil [of 10 t] split_no_sep [of _ 10 t] lines_text_split [of 10 t] by auto

lemma lines_of_unique: "lines_of t ls \<Longrightarrow> split 10 t = ls"
  unfolding lines_of_def using split_lines_text [of ls 10] by auto

lemma create_optimized_docx_value:
  "create_optimized_docx U package world original t =
     \<lparr>getvalue = package world
        (Heading (ustr ''Optimized Resume'') 0
           # map Paragraph (filter (\<lambda>l. \<not> blank U l) (split 10 t))),
      tell = 0\<rparr>"
  by (simp add: create_optimized_docx_def add_heading_def add_paragraphs_filter BytesIO_def
      save_def buffer_write_def seek_def)

text \<open>
  C6. Every text has lines, and for every text the buffer that \<open>create_optimized_docx\<close>
  returns holds, from its start, the package of one document: the heading
  \<open>Optimized Resume\<close> (of level 0) followed by one paragraph for each line of the text
  that is not blank, in the order of the lines; a blank line (white space only) gives no
  paragraph.
\<close>

theorem create_optimized_docx_spec:
  "(\<exists>ls. lines_of t ls)
   \<and> (\<forall>ls. lines_of t ls \<longrightarrow>
        create_optimized_docx U package world original t =
          \<lparr>getvalue = package world
             (Heading (ustr ''Optimized Resume'') 0
                # map Paragraph (filter (\<lambda>l. \<not> blank U l) ls)),
           tell = 0\<rparr>)"
proof (intro conjI allI impI)
  show "\<exists>ls. lines_of t ls" using lines_of_split by blast
next
  fix ls
  assume "lines_of t ls"
  then have "split 10 t = ls" by (rule lines_of_unique)
  then show "create_optimized_docx U package world original t =
          \<lparr>getvalue = package world
             (Heading (ustr ''Optimized Resume'') 0
                # map Paragraph (filter (\<lambda>l. \<not> blank U l) ls)),
           tell = 0\<rparr>"
    by (simp add: create_optimized_docx_value)
qed

theorem create_optimized_docx_spec_witness:
  "lines_of (ustr ''line one\<newline>\<newline>  '' @ [160] @ ustr ''\<newline>two\<newline>'')
     [ustr ''line one'', [], ustr ''  '' @ [160], ustr ''two'', []]
   \<and> create_optimized_docx latin1 sample_package 7 (ustr ''old'')
       (ustr ''line one\<newline>\<newline>  '' @ [160] @ ustr ''\<newline>two\<newline>'')
     = \<lparr>getvalue = sample_package 7
          [Heading (ustr ''Optimized Resume'') 0, Paragraph (ustr ''line one''),
           Paragraph (ustr ''two'')],
        tell = 0\<rparr>"
proof -
  have l: "lines_of (ustr ''line one\<newline>\<newline>  '' @ [160] @ ustr ''\<newline>two\<newline>'')
     [ustr ''line one'', [], ustr ''  '' @ [160], ustr ''two'', []]"
    by (simp add: lines_of_def ustr_def)
  have b: "filter (\<lambda>l. \<not> blank latin1 l)
      [ustr ''line one'', [], ustr ''  '' @ [160], ustr ''two'', []]
      = [ustr ''line one'', ustr ''two'']"
    by (simp add: blank_def latin1_def ustr_def)
  from create_optimized_docx_spec [of "ustr ''line one\<newline>\<newline>  '' @ [160] @ ustr ''\<newline>two\<newline>''"
      latin1 sample_package 7 "ustr ''old''"] l
  have "create_optimized_docx latin1 sample_package 7 (ustr ''old'')
       (ustr ''line one\<newline>\<newline>  '' @ [160] @ ustr ''\<newline>two\<newline>'')
     = \<lparr>getvalue = sample_package 7
          (Heading (ustr ''Optimized Resume'') 0
             # map Paragraph (filter (\<lambda>l. \<not> blank latin1 l)
                 [ustr ''line one'', [], ustr ''  '' @ [160], ustr ''two'', []])),
        tell = 0\<rparr>"
    by blast
  then show ?thesis using l by (simp only: b list.map simp_thms)
qed



section \<open>Text extraction\<close>

lemma pdf_pages_loop_concat:
  "pdf_pages_loop pages acc = acc @ concat (map page_text pages)"
  by (induction pages arbitrary: acc) (auto simp: page_text_def split: option.splits)

lemma docx_paragraphs_loop_concat:
  "docx_paragraphs_loop paras acc = acc @ concat (map (\<lambda>p. para_text p @ [10]) paras)"
  by (induction paras arbitrary: acc) (simp_all add: ustr_def)

text \<open>
  C8. Text extraction folds over the parts of the document. For a pdf that the reader
  parses, the result is the concatenation of the extractable texts of the pages in page
  order, a page that yields no text contributing the empty string and no error; for a docx
  that the library parses, the result is the concatenation of the paragraph texts in
  order, each followed by a newline.
\<close>

theorem extract_text_spec:
  "(reader pdf_file = Inr pages \<longrightarrow>
      extract_text_from_pdf reader pdf_file = Inr (concat (map page_text pages))
      \<and> concat (map page_text pages) = foldl (\<lambda>acc p. acc @ page_text p) [] pages
      \<and> (\<forall>p \<in> set pages. extract_text p = None \<longrightarrow> page_text p = []))
   \<and> (document docx_file = Inr paragraphs \<longrightarrow>
      extract_text_from_docx document docx_file
        = Inr (concat (map (\<lambda>p. para_text p @ ustr ''\<newline>'') paragraphs)))"
proof -
  have "concat (map f xs) = foldl (\<lambda>acc p. acc @ f p) [] xs" for f :: "page \<Rightarrow> str" and xs
  proof -
    have "foldl (\<lambda>acc p. acc @ f p) a xs = a @ concat (map f xs)" for a
      by (induction xs arbitrary: a) simp_all
    from this [of "[]"] show ?thesis by simp
  qed
  then show ?thesis
    by (simp add: extract_text_from_pdf_def extract_text_from_docx_def pdf_pages_loop_concat
        docx_paragraphs_loop_concat page_text_def ustr_def)
qed

theorem extract_text_spec_witness:
  "extract_text_from_pdf
     (\<lambda>f. if f = ustr ''cv.pdf''
           then Inr [\<lparr>extract_text = Some (ustr ''ab'')\<rparr>, \<lparr>extract_text = None\<rparr>,
                     \<lparr>extract_text = Some []\<rparr>, \<lparr>extract_text = Some (ustr ''cd'')\<rparr>]
           else Inl PdfReadError) (ustr ''cv.pdf'') = Inr (ustr ''abcd'')
   \<and> extract_text_from_docx
       (\<lambda>f. if f = ustr ''cv.docx'' then Inr [\<lparr>para_text = ustr ''ab''\<rparr>, \<lparr>para_text = []\<rparr>]
             else Inl PackageNotFoundError) (ustr ''cv.docx'') = Inr (ustr ''ab\<newline>\<newline>'')"
  using extract_text_spec [of
      "\<lambda>f. if f = ustr ''cv.pdf''
           then Inr [\<lparr>extract_text = Some (ustr ''ab'')\<rparr>, \<lparr>extract_text = None\<rparr>,
                     \<lparr>extract_text = Some []\<rparr>, \<lparr>extract_text = Some (ustr ''cd'')\<rparr>]
           else Inl PdfReadError"
      "ustr ''cv.pdf''"
      "[\<lparr>extract_text = Some (ustr ''ab'')\<rparr>, \<lparr>extract_text = None\<rparr>,
        \<lparr>extract_text = Some []\<rparr>, \<lparr>extract_text = Some (ustr ''cd'')\<rparr>]"
      "\<lambda>f. if f = ustr ''cv.docx'' then Inr [\<lparr>para_text = ustr ''ab''\<rparr>, \<lparr>para_text = []\<rparr>]
             else Inl PackageNotFoundError"
      "ustr ''cv.docx''"
      "[\<lparr>para_text = ustr ''ab''\<rparr>, \<lparr>para_text = []\<rparr>]"]
  by (simp add: page_text_def ustr_def)

text \<open>
  C10. For every file path and every file type that is neither \<open>pdf\<close> nor \<open>docx\<close>,
  \<open>parse_resume\<close> returns the empty string and no error, whatever the library calls
  would do with the path.
\<close>

theorem parse_resume_other_type:
  "file_type \<noteq> ustr ''pdf'' \<Longrightarrow> file_type \<noteq> ustr ''docx'' \<Longrightarrow>
   parse_resume lib file_path file_type = Inr []"
  by (simp add: parse_resume_def)

theorem parse_resume_other_type_witness:
  "ustr ''PDF'' \<noteq> ustr ''pdf'' \<and> ustr ''PDF'' \<noteq> ustr ''docx''
   \<and> parse_resume
        \<lparr>open_rb = (\<lambda>p. Inl OSError :: error + nat), PdfReader = (\<lambda>f. Inl PdfReadError),
         Document = (\<lambda>p. Inl PackageNotFoundError)\<rparr> (ustr ''cv.PDF'') (ustr ''PDF'') = Inr []"
proof -
  have a: "ustr ''PDF'' \<noteq> ustr ''pdf''" and b: "ustr ''PDF'' \<noteq> ustr ''docx''"
    by (simp_all add: ustr_def)
  from parse_resume_other_type [OF a b] a b show ?thesis by simp
qed

end
